theory Spec2Isabelle
  imports Complex_Main "HOL-Library.Word" "HOL-Library.Multiset" "HOL-Library.Sublist"
    "HOL-Library.AList"
begin

unbundle bit_operations_syntax

section \<open>Data model of \<open>main.go\<close>\<close>

text \<open>
  Go's \<open>byte\<close> and \<open>uint32\<close> are machine words; Go's \<open>int\<close> (offsets, lengths) is
  modelled as \<open>int\<close>, indices that are known non-negative as \<open>nat\<close>.
  Record fields are global constants in HOL, so fields whose Go names clash are
  prefixed: \<open>Signature.Name\<close>, \<open>.Signature\<close>, \<open>.Labels\<close>, \<open>.Bss\<close> are
  \<open>sigName\<close>, \<open>sigText\<close>, \<open>sigLabels\<close>, \<open>sigBss\<close>; \<open>match.end\<close> is
  \<open>end_m\<close> (\<open>end\<close> is a keyword); the fields of \<open>VersionEstimate\<close> are
  \<open>ve_version\<close> and \<open>ve_match\<close>.
\<close>

type_synonym byte = "8 word"
type_synonym uint32 = "32 word"

record Labels =
  Name :: string
  Offset :: uint32

record Signature =
  sigName :: string
  sigText :: string
  sigLabels :: "Labels list"
  sigBss :: "Labels list"
  signature :: "byte list"
  wildcard :: "bool list"

text \<open>The zero value \<open>Signature{}\<close>.\<close>

definition emptySignature :: Signature where
  "emptySignature =
     \<lparr>sigName = [], sigText = [], sigLabels = [], sigBss = [], signature = [], wildcard = []\<rparr>"

text \<open>
  Every way the program stops without a report: a run-time panic on an index out of
  range, a \<open>strconv.ParseUint\<close> error, a failed catalog fetch, and the three
  \<open>log.Fatal\<close>/\<open>os.Exit\<close> exits of \<open>do\<close> and \<open>main\<close>.
\<close>

datatype error =
    IndexOutOfRange
  | MalformedSignature
  | CatalogUnavailable
  | NoMatchesFound
  | InputTooSmall
  | ReadFailed
  | UsageError

section \<open>\<open>checkSignature\<close>\<close>

text \<open>
  The inner loop of \<open>checkSignature\<close> (\<open>for j := 0; j < sigLen; j++\<close>) over the slice
  \<open>start = b[i:]\<close>. \<open>Inr True\<close> is \<open>match\<close> left true, \<open>Inr False\<close> is the
  \<open>break\<close>; reading \<open>signature.wildcard[j]\<close> or \<open>start[j]\<close> beyond the slice panics.
\<close>

function sigLoop :: "byte list \<Rightarrow> Signature \<Rightarrow> nat \<Rightarrow> nat \<Rightarrow> error + bool" where
  "sigLoop start sig sigLen j =
     (if j < sigLen then
        (if length (wildcard sig) \<le> j then Inl IndexOutOfRange
         else if wildcard sig ! j then sigLoop start sig sigLen (j + 1)
         else if length start \<le> j \<or> length (signature sig) \<le> j then Inl IndexOutOfRange
         else if start ! j \<noteq> signature sig ! j then Inr False
         else sigLoop start sig sigLen (j + 1))
      else Inr True)"
  by pat_completeness auto
termination
  by (relation "measure (\<lambda>(start, sig, sigLen, j). sigLen - j)") auto

declare sigLoop.simps [simp del]

text \<open>
  The outer loop \<open>for i := 0; i < len(b)-sigLen; i++\<close>. The bound is computed on Go's
  signed \<open>int\<close>, so it is negative when the blob is shorter than the signature.
\<close>

function scanLoop :: "byte list \<Rightarrow> Signature \<Rightarrow> nat \<Rightarrow> nat \<Rightarrow> error + (Signature \<times> int)" where
  "scanLoop b sig sigLen i =
     (if int i < int (length b) - int sigLen then
        (case sigLoop (drop i b) sig sigLen 0 of
           Inl e \<Rightarrow> Inl e
         | Inr True \<Rightarrow> Inr (sig, int i)
         | Inr False \<Rightarrow> scanLoop b sig sigLen (i + 1))
      else Inr (emptySignature, - 1))"
  by pat_completeness auto
termination
  by (relation "measure (\<lambda>(b, sig, sigLen, i). length b - i)") auto

declare scanLoop.simps [simp del]

definition checkSignature :: "byte list \<Rightarrow> Signature \<Rightarrow> error + (Signature \<times> int)" where
  "checkSignature b sig =
     (let sigLen = length (signature sig) in
      if sigLen = 0 then Inr (emptySignature, - 1)
      else scanLoop b sig sigLen 0)"

text \<open>
  The data-model invariant of a compiled signature: pattern and wildcard mask grow in
  lockstep. \<open>matchesAt b sig i\<close> says that every non-wildcard byte of the pattern agrees
  with the blob at offset \<open>i\<close>.
\<close>

definition compiled :: "Signature \<Rightarrow> bool" where
  "compiled sig \<longleftrightarrow> length (wildcard sig) = length (signature sig)"

definition matchesAt :: "byte list \<Rightarrow> Signature \<Rightarrow> nat \<Rightarrow> bool" where
  "matchesAt b sig i \<longleftrightarrow>
     (\<forall>j < length (signature sig). \<not> wildcard sig ! j \<longrightarrow> b ! (i + j) = signature sig ! j)"

text \<open>The offset component of the scanner's result, \<open>- 1\<close> meaning not found.\<close>

definition offsetOf :: "error + (Signature \<times> int) \<Rightarrow> error + int" where
  "offsetOf r = map_sum id snd r"

text \<open>Sample compiled signatures used to exercise the scanner.\<close>

definition sigA :: Signature where
  "sigA = \<lparr>sigName = ''A.OBJ'', sigText = ''01 ?? 03'', sigLabels = [], sigBss = [],
      signature = [1, 0, 3], wildcard = [False, True, False]\<rparr>"

definition sigA' :: Signature where
  "sigA' = \<lparr>sigName = ''A.OBJ'', sigText = ''01 ?? 03'', sigLabels = [], sigBss = [],
      signature = [1, 0xFF, 3], wildcard = [False, True, False]\<rparr>"

definition sigB :: Signature where
  "sigB = \<lparr>sigName = ''B.OBJ'', sigText = ''12 34'', sigLabels = [], sigBss = [],
      signature = [0x12, 0x34], wildcard = [False, False]\<rparr>"

section \<open>Strings and formatting\<close>

text \<open>
  Go strings are byte sequences, as \<open>string\<close> is. \<open>strings.HasPrefix\<close>,
  \<open>strings.HasSuffix\<close> and \<open>strings.TrimSuffix\<close> compare bytes exactly.
  \<open>strings.ToLower\<close> is modelled on ASCII text: the letters \<open>A\<close> to \<open>Z\<close> are
  mapped to \<open>a\<close> to \<open>z\<close> and every other byte is kept.
  \<open>strings.Split(s, " ")\<close> cuts at every single separator, so doubled separators
  give empty tokens and the empty string gives one empty token.
\<close>

definition HasPrefix :: "string \<Rightarrow> string \<Rightarrow> bool" where
  "HasPrefix s pre \<longleftrightarrow> length s \<ge> length pre \<and> take (length pre) s = pre"

definition HasSuffix :: "string \<Rightarrow> string \<Rightarrow> bool" where
  "HasSuffix s suf \<longleftrightarrow> length s \<ge> length suf \<and> drop (length s - length suf) s = suf"

definition TrimSuffix :: "string \<Rightarrow> string \<Rightarrow> string" where
  "TrimSuffix s suf = (if HasSuffix s suf then take (length s - length suf) s else s)"

definition toLowerChar :: "char \<Rightarrow> char" where
  "toLowerChar c =
     (case map_of (zip ''ABCDEFGHIJKLMNOPQRSTUVWXYZ'' ''abcdefghijklmnopqrstuvwxyz'') c of
        Some l \<Rightarrow> l
      | None \<Rightarrow> c)"

definition ToLower :: "string \<Rightarrow> string" where
  "ToLower s = map toLowerChar s"

fun Split :: "string \<Rightarrow> char \<Rightarrow> string list" where
  "Split [] sep = [[]]"
| "Split (c # s) sep =
     (if c = sep then [] # Split s sep
      else (case Split s sep of [] \<Rightarrow> [[c]] | t # ts \<Rightarrow> (c # t) # ts))"

text \<open>
  \<open>strconv.ParseUint(ch, 16, 8)\<close>: a non-empty string of hexadecimal digits whose value
  fits in 8 bits; anything else is an error.
\<close>

definition hexVal :: "char \<Rightarrow> nat option" where
  "hexVal c = map_of (zip ''0123456789abcdefABCDEF''
     [0, 1, 2, 3, 4, 5, 6, 7, 8, 9, 10, 11, 12, 13, 14, 15, 10, 11, 12, 13, 14, 15]) c"

fun parseHex :: "string \<Rightarrow> nat \<Rightarrow> nat option" where
  "parseHex [] n = Some n"
| "parseHex (c # s) n =
     (case hexVal c of None \<Rightarrow> None | Some d \<Rightarrow> parseHex s (n * 16 + d))"

definition ParseUint_16_8 :: "string \<Rightarrow> error + nat" where
  "ParseUint_16_8 s =
     (if s = [] then Inl MalformedSignature
      else case parseHex s 0 of
             None \<Rightarrow> Inl MalformedSignature
           | Some n \<Rightarrow> if n > 255 then Inl MalformedSignature else Inr n)"

text \<open>
  The verbs of \<open>fmt.Printf\<close> that \<open>do\<close> uses: \<open>%X\<close> on an \<open>int\<close> (upper-case
  hexadecimal, no leading zeros, a minus sign for a negative value) and \<open>%08X\<close> on a
  \<open>uint32\<close> (the same digits, padded with zeros to width 8).
\<close>

definition hexDigit :: "nat \<Rightarrow> char" where
  "hexDigit n = ''0123456789ABCDEF'' ! n"

function hexUpper :: "nat \<Rightarrow> string" where
  "hexUpper n = (if n < 16 then [hexDigit n] else hexUpper (n div 16) @ [hexDigit (n mod 16)])"
  by pat_completeness auto
termination
  by (relation "measure id") auto

declare hexUpper.simps [simp del]

definition fmtX :: "int \<Rightarrow> string" where
  "fmtX i = (if i < 0 then ''-'' @ hexUpper (nat (- i)) else hexUpper (nat i))"

definition fmt08X :: "uint32 \<Rightarrow> string" where
  "fmt08X w = (let h = hexUpper (unat w) in replicate (8 - length h) CHR ''0'' @ h)"

section \<open>\<open>fetchPsyqSignatures\<close>: compiling the signature text\<close>

text \<open>
  The network part of \<open>fetchPsyqSignatures\<close> (directory listing, download and JSON
  decoding of every file) is the parameter \<open>catalog\<close>: for a version tag it gives the
  decoded records, or \<open>None\<close> when any request fails. The loop over the decoded
  records is modelled in full: the token loop appends to the record's \<open>wildcard\<close> and
  \<open>signature\<close> fields (empty after decoding, as JSON cannot set unexported
  fields), and the first bad token aborts the whole fetch.
\<close>

fun compileTokens :: "string list \<Rightarrow> Signature \<Rightarrow> error + Signature" where
  "compileTokens [] sig = Inr sig"
| "compileTokens (ch # s) sig =
     (if ch = ''??'' then
        compileTokens s (sig\<lparr>signature := signature sig @ [0], wildcard := wildcard sig @ [True]\<rparr>)
      else if ch = [] then compileTokens s sig
      else case ParseUint_16_8 ch of
             Inl err \<Rightarrow> Inl err
           | Inr b \<Rightarrow>
               compileTokens s
                 (sig\<lparr>signature := signature sig @ [of_nat b], wildcard := wildcard sig @ [False]\<rparr>))"

fun compileAll :: "Signature list \<Rightarrow> error + Signature list" where
  "compileAll [] = Inr []"
| "compileAll (sig # signatures) =
     (case compileTokens (Split (ToLower (sigText sig)) CHR '' '') sig of
        Inl err \<Rightarrow> Inl err
      | Inr sig' \<Rightarrow>
          (case compileAll signatures of
             Inl err \<Rightarrow> Inl err
           | Inr signatures' \<Rightarrow> Inr (sig' # signatures')))"

definition fetchPsyqSignatures ::
  "(string \<Rightarrow> Signature list option) \<Rightarrow> string \<Rightarrow> error + Signature list" where
  "fetchPsyqSignatures catalog sdkver =
     (case catalog sdkver of
        None \<Rightarrow> Inl CatalogUnavailable
      | Some signatures \<Rightarrow> compileAll signatures)"

section \<open>\<open>getMatches\<close>\<close>

text \<open>
  A Go map is an association list with distinct keys: a lookup \<open>m[k]\<close> is
  \<open>map_of m k\<close>, an assignment \<open>m[k] = v\<close> is \<open>AList.update k v m\<close>, and \<open>len(m)\<close> is
  the length of the list.
\<close>

type_synonym ('k, 'v) gomap = "('k \<times> 'v) list"

record match =
  start :: int
  end_m :: int
  name :: string
  version :: string
  symbols :: "(uint32, string) gomap"

fun addLabels ::
  "uint32 \<Rightarrow> int \<Rightarrow> Labels list \<Rightarrow> (uint32, string) gomap \<Rightarrow> (uint32, string) gomap" where
  "addLabels baseAddr offset [] syms = syms"
| "addLabels baseAddr offset (label # labels) syms =
     (if HasPrefix (Name label) ''loc_'' then addLabels baseAddr offset labels syms
      else if HasPrefix (Name label) ''text_'' then addLabels baseAddr offset labels syms
      else addLabels baseAddr offset labels
             (AList.update (baseAddr + word_of_int offset + Offset label) (Name label) syms))"

fun matchLoop ::
  "byte list \<Rightarrow> uint32 \<Rightarrow> string \<Rightarrow> Signature list \<Rightarrow> match list \<Rightarrow> error + match list" where
  "matchLoop b baseAddr sdkver [] matches = Inr matches"
| "matchLoop b baseAddr sdkver (s # signatures) matches =
     (case checkSignature b s of
        Inl err \<Rightarrow> Inl err
      | Inr (sig, offset) \<Rightarrow>
          if offset < 0 then matchLoop b baseAddr sdkver signatures matches
          else matchLoop b baseAddr sdkver signatures
                 (matches @
                  [\<lparr>start = offset, end_m = offset + int (length (signature sig)),
                    name = sigName sig, version = sdkver,
                    symbols = addLabels baseAddr offset (sigLabels sig) []\<rparr>]))"

definition getMatches ::
  "(string \<Rightarrow> Signature list option) \<Rightarrow> byte list \<Rightarrow> uint32 \<Rightarrow> string \<Rightarrow> error + match list" where
  "getMatches catalog b baseAddr sdkver =
     (case fetchPsyqSignatures catalog sdkver of
        Inl err \<Rightarrow> Inl err
      | Inr signatures \<Rightarrow> matchLoop b baseAddr sdkver signatures [])"

section \<open>Ranging over a map\<close>

text \<open>
  Go visits the keys of a map in an unspecified order, each once, whatever the order
  of insertion: the order is a parameter \<open>ks\<close> of every function that ranges over a
  map, and the theorems hold for every \<open>ks\<close> that enumerates the map.
  \<open>sort.Slice\<close> is not stable; it is modelled by the stable \<open>sort_key\<close> applied to the
  slice in range order. For a slice with one element per key (the matches, the
  version estimates) every sorted arrangement is the stable sort of some range order
  (of itself), so no outcome of the program is lost.
\<close>

definition enumerates :: "'k list \<Rightarrow> ('k, 'v) gomap \<Rightarrow> bool" where
  "enumerates ks m \<longleftrightarrow> distinct ks \<and> set ks = fst ` set m"

definition rangeValues :: "'k list \<Rightarrow> ('k, 'v) gomap \<Rightarrow> 'v list" where
  "rangeValues ks m = List.map_filter (map_of m) ks"

section \<open>\<open>estimatePsyqVesion\<close>\<close>

text \<open>
  The ratio \<open>float64(count) / total\<close> is modelled by the exact rational quotient; the
  \<open>float64\<close> is its correctly rounded value, and rounding keeps the order.
\<close>

record VersionEstimate =
  ve_version :: string
  ve_match :: rat

text \<open>The statement \<open>versions[m.version]++\<close>; a missing key counts as 0.\<close>

definition bumpVersion :: "match \<Rightarrow> (string, nat) gomap \<Rightarrow> (string, nat) gomap" where
  "bumpVersion m versions =
     AList.update (version m)
       ((case map_of versions (version m) of None \<Rightarrow> 0 | Some c \<Rightarrow> c) + 1) versions"

definition countVersions :: "match list \<Rightarrow> (string, nat) gomap" where
  "countVersions ms = fold bumpVersion ms []"

definition estimatePsyqVesion ::
  "string list \<Rightarrow> string list \<Rightarrow> (string, match) gomap \<Rightarrow> VersionEstimate list" where
  "estimatePsyqVesion ks vs matches =
     (let versions = countVersions (rangeValues ks matches);
          total = of_nat (length matches);
          out = List.map_filter (\<lambda>v.
                  map_option (\<lambda>count. \<lparr>ve_version = v, ve_match = of_nat count / total\<rparr>)
                    (map_of versions v)) vs;
          out = sort_key ve_match out
      in if length out \<ge> 3 then take 3 out else out)"

section \<open>\<open>getMatchesSorted\<close> and \<open>getSymbolsSorted\<close>\<close>

definition getMatchesSorted :: "string list \<Rightarrow> (string, match) gomap \<Rightarrow> match list" where
  "getMatchesSorted ks matches = sort_key start (rangeValues ks matches)"

text \<open>
  The symbols of one match are visited in the order of its association list; their
  addresses are distinct, so that order does not show after sorting. Symbols of
  different matches at one address come out in range order here, in any order in Go.
\<close>

definition getSymbolsSorted :: "string list \<Rightarrow> (string, match) gomap \<Rightarrow> Labels list" where
  "getSymbolsSorted ks matches =
     sort_key Offset
       (concat (map (\<lambda>m. map (\<lambda>(offset, name). \<lparr>Name = name, Offset = offset\<rparr>) (symbols m))
          (rangeValues ks matches)))"

section \<open>\<open>do\<close>\<close>

definition versions :: "string list" where
  "versions = [''260'', ''300'', ''330'', ''340'', ''350'', ''3610'', ''3611'', ''370'',
               ''400'', ''410'', ''420'', ''430'', ''440'', ''450'', ''460'', ''470'']"

text \<open>
  The loop that one task runs while it holds the mutex (lines 242 to 253): insert a
  name not yet present, replace an entry only by a match with strictly more symbols.
\<close>

fun aggregate :: "match list \<Rightarrow> (string, match) gomap \<Rightarrow> (string, match) gomap" where
  "aggregate [] allMatches = allMatches"
| "aggregate (m # matches) allMatches =
     (case map_of allMatches (name m) of
        None \<Rightarrow> aggregate matches (AList.update (name m) m allMatches)
      | Some existingMatch \<Rightarrow>
          if length (symbols existingMatch) < length (symbols m)
          then aggregate matches (AList.update (name m) m allMatches)
          else aggregate matches allMatches)"

text \<open>
  One task per version tag runs concurrently, each with its own tag, and each merges
  its matches under the mutex, so the merges happen one task after the other in the
  order \<open>sched\<close> in which the tasks take the lock (a permutation of \<open>versions\<close>).
  \<open>log.Fatal\<close> in any task ends the process before anything is printed.
\<close>

fun runTasks ::
  "(string \<Rightarrow> Signature list option) \<Rightarrow> byte list \<Rightarrow> uint32 \<Rightarrow> string list \<Rightarrow>
   (string, match) gomap \<Rightarrow> error + (string, match) gomap" where
  "runTasks catalog b baseAddr [] allMatches = Inr allMatches"
| "runTasks catalog b baseAddr (ver # sched) allMatches =
     (case getMatches catalog b baseAddr ver of
        Inl err \<Rightarrow> Inl err
      | Inr matches \<Rightarrow> runTasks catalog b baseAddr sched (aggregate matches allMatches))"

text \<open>
  The three \<open>Printf\<close> calls of the report. A line is kept without its newline. The
  estimate line \<open>PSY-Q %s: %.2f\<close> keeps the ratio as a number: the decimal rendering
  of a \<open>float64\<close> is not modelled.
\<close>

datatype printed = EstimateLine string rat | Line string

definition namedLine :: "match \<Rightarrow> string" where
  "namedLine m =
     '' - [0x'' @ fmtX (start m) @ '', c, '' @ ToLower (TrimSuffix (name m) ''.OBJ'') @ '']''"

definition gapLine :: "int \<Rightarrow> string" where
  "gapLine e = '' - [0x'' @ fmtX e @ '', c]''"

definition symbolLine :: "uint32 \<Rightarrow> Labels \<Rightarrow> string" where
  "symbolLine baseAddr symbol = Name symbol @ '' = 0x'' @ fmt08X (baseAddr + Offset symbol)"

function regionLoop :: "match list \<Rightarrow> nat \<Rightarrow> string list" where
  "regionLoop matches i =
     (if i < length matches then
        (if start (matches ! i) > end_m (matches ! (i - 1))
         then [gapLine (end_m (matches ! (i - 1)))] else []) @
        namedLine (matches ! i) # regionLoop matches (i + 1)
      else [])"
  by pat_completeness auto
termination
  by (relation "measure (\<lambda>(matches, i). length matches - i)") auto

declare regionLoop.simps [simp del]

text \<open>
  The orders in which the four \<open>range\<close> loops and the task group run: \<open>taskOrder\<close> for
  the tasks, \<open>matchesOrder\<close>, \<open>symbolsOrder\<close> and \<open>estimateOrder\<close> for the ranges over
  \<open>allMatches\<close> in \<open>getMatchesSorted\<close>, \<open>getSymbolsSorted\<close> and
  \<open>estimatePsyqVesion\<close>, \<open>versionsOrder\<close> for the range over the version counts.
\<close>

record orders =
  taskOrder :: "string list"
  matchesOrder :: "string list"
  symbolsOrder :: "string list"
  estimateOrder :: "string list"
  versionsOrder :: "string list"

text \<open>
  Lines 268 to 274: the named line of \<open>matches[0]\<close> (a panic on an empty slice), then
  the loop from index 1.
\<close>

definition printRegions :: "match list \<Rightarrow> error + string list" where
  "printRegions matches =
     (if length matches = 0 then Inl IndexOutOfRange
      else Inr (namedLine (matches ! 0) # regionLoop matches 1))"

definition report :: "orders \<Rightarrow> uint32 \<Rightarrow> (string, match) gomap \<Rightarrow> error + printed list" where
  "report os baseAddr allMatches =
     (if length allMatches = 0 then Inl NoMatchesFound
      else
        let matches = getMatchesSorted (matchesOrder os) allMatches;
            symbols = getSymbolsSorted (symbolsOrder os) allMatches
        in case printRegions matches of
             Inl err \<Rightarrow> Inl err
           | Inr regions \<Rightarrow>
               Inr (map (\<lambda>ver. EstimateLine (ve_version ver) (ve_match ver))
                      (estimatePsyqVesion (estimateOrder os) (versionsOrder os) allMatches) @
                    map Line regions @
                    map (\<lambda>symbol. Line (symbolLine baseAddr symbol)) symbols))"

definition "do" ::
  "orders \<Rightarrow> (string \<Rightarrow> Signature list option) \<Rightarrow> byte list \<Rightarrow> uint32 \<Rightarrow> error + printed list" where
  "do os catalog b baseAddr =
     (case runTasks catalog b baseAddr (taskOrder os) [] of
        Inl err \<Rightarrow> Inl err
      | Inr allMatches \<Rightarrow> report os baseAddr allMatches)"

section \<open>\<open>main\<close>\<close>

text \<open>
  \<open>os.Args\<close> and \<open>os.ReadFile\<close> are the parameters \<open>args\<close> and \<open>readFile\<close>
  (\<open>None\<close> when the file cannot be read).
\<close>

definition main ::
  "orders \<Rightarrow> (string \<Rightarrow> Signature list option) \<Rightarrow> string list \<Rightarrow> (string \<Rightarrow> byte list option) \<Rightarrow>
   error + printed list" where
  "main os catalog args readFile =
     (if length args < 2 then Inl UsageError
      else case readFile (args ! 1) of
             None \<Rightarrow> Inl ReadFailed
           | Some data \<Rightarrow>
               if length data \<le> 0x800 then Inl InputTooSmall
               else do os catalog (drop 0x800 data) 0x80010000)"

section \<open>Sample matches and predicates used in the statements\<close>

text \<open>
  Two matches of one module with no symbols and different versions, a 2-symbol and a
  5-symbol variant of one module, and a match of another module.
\<close>

definition tieA :: match where
  "tieA = \<lparr>start = 0, end_m = 4, name = ''M.OBJ'', version = ''260'', symbols = []\<rparr>"

definition tieB :: match where
  "tieB = \<lparr>start = 0, end_m = 4, name = ''M.OBJ'', version = ''300'', symbols = []\<rparr>"

definition m2 :: match where
  "m2 = \<lparr>start = 8, end_m = 12, name = ''M.OBJ'', version = ''260'',
          symbols = [(0x80010008, ''a''), (0x8001000C, ''b'')]\<rparr>"

definition m5 :: match where
  "m5 = \<lparr>start = 8, end_m = 12, name = ''M.OBJ'', version = ''300'',
          symbols = [(0x80010008, ''a''), (0x80010009, ''b''), (0x8001000A, ''c''),
                     (0x8001000B, ''d''), (0x8001000C, ''e'')]\<rparr>"

definition mOther :: match where
  "mOther = \<lparr>start = 0, end_m = 4, name = ''N.OBJ'', version = ''260'',
          symbols = [(0x80010000, ''n'')]\<rparr>"


text \<open>The resolved matches of the gap law: A and B touch, C starts after a hole.\<close>

definition gapLawMatches :: "(string, match) gomap" where
  "gapLawMatches =
     [(''A'', \<lparr>start = 0x10, end_m = 0x20, name = ''A'', version = ''260'', symbols = []\<rparr>),
      (''B'', \<lparr>start = 0x20, end_m = 0x30, name = ''B'', version = ''260'', symbols = []\<rparr>),
      (''C'', \<lparr>start = 0x50, end_m = 0x60, name = ''C'', version = ''260'', symbols = []\<rparr>)]"

text \<open>
  What one round of the region loop prints for index \<open>i\<close>: a gap line at the previous
  match's end exactly when this match starts strictly after it, then the named line.
\<close>

definition segmentAt :: "match list \<Rightarrow> nat \<Rightarrow> string list" where
  "segmentAt ms i =
     (if start (ms ! i) > end_m (ms ! (i - 1)) then [gapLine (end_m (ms ! (i - 1)))] else []) @
     [namedLine (ms ! i)]"





text \<open>
  The end-to-end scenario: one decoded record \<open>00 00 ?? 00\<close> named \<open>X.OBJ\<close> with the
  label \<open>FOO\<close> at offset 1, served for version 260 (the other versions have no
  records), tasks taking the lock in the order of the version list.
\<close>

definition sigX :: Signature where
  "sigX = \<lparr>sigName = ''X.OBJ'', sigText = ''00 00 ?? 00'',
            sigLabels = [\<lparr>Name = ''FOO'', Offset = 1\<rparr>], sigBss = [],
            signature = [], wildcard = []\<rparr>"

definition sigXc :: Signature where
  "sigXc = sigX\<lparr>signature := [0, 0, 0, 0], wildcard := [False, False, True, False]\<rparr>"

definition catalogX :: "string \<Rightarrow> Signature list option" where
  "catalogX ver = (if ver = ''260'' then Some [sigX] else Some [])"

definition ordersX :: orders where
  "ordersX = \<lparr>taskOrder = versions, matchesOrder = [''X.OBJ''], symbolsOrder = [''X.OBJ''],
     estimateOrder = [''X.OBJ''], versionsOrder = [''260'']\<rparr>"

definition matchX :: match where
  "matchX = \<lparr>start = 0, end_m = 4, name = ''X.OBJ'', version = ''260'',
             symbols = [(0x80010001, ''FOO'')]\<rparr>"

text \<open>A file system in which every path holds the given bytes.\<close>

definition readsAs :: "byte list \<Rightarrow> string \<Rightarrow> byte list option" where
  "readsAs data path = Some data"

section \<open>Verification: the scanner\<close>

lemma sigLoop_decides:
  assumes "sigLen \<le> length (wildcard sig)" "sigLen \<le> length (signature sig)"
    "sigLen \<le> length st"
  shows "sigLoop st sig sigLen j =
           Inr (\<forall>k. j \<le> k \<and> k < sigLen \<longrightarrow> wildcard sig ! k \<or> st ! k = signature sig ! k)"
  using assms
proof (induction st sig sigLen j rule: sigLoop.induct)
  case (1 st sig sigLen j)
  let ?ok = "\<lambda>k. wildcard sig ! k \<or> st ! k = signature sig ! k"
  show ?case
  proof (cases "j < sigLen")
    case False
    then show ?thesis by (auto simp: sigLoop.simps)
  next
    case True
    have split: "(\<forall>k. j \<le> k \<and> k < sigLen \<longrightarrow> ?ok k)
        \<longleftrightarrow> ?ok j \<and> (\<forall>k. j + 1 \<le> k \<and> k < sigLen \<longrightarrow> ?ok k)"
    proof
      assume a: "\<forall>k. j \<le> k \<and> k < sigLen \<longrightarrow> ?ok k"
      then have "?ok j" using True by blast
      moreover have "\<forall>k. j + 1 \<le> k \<and> k < sigLen \<longrightarrow> ?ok k" using a by simp
      ultimately show "?ok j \<and> (\<forall>k. j + 1 \<le> k \<and> k < sigLen \<longrightarrow> ?ok k)" by blast
    next
      assume a: "?ok j \<and> (\<forall>k. j + 1 \<le> k \<and> k < sigLen \<longrightarrow> ?ok k)"
      show "\<forall>k. j \<le> k \<and> k < sigLen \<longrightarrow> ?ok k"
      proof (intro allI impI)
        fix k assume "j \<le> k \<and> k < sigLen"
        then have "k = j \<or> (j + 1 \<le> k \<and> k < sigLen)" by arith
        with a show "?ok k" by blast
      qed
    qed
    from True "1.prems" have inr: "\<not> length (wildcard sig) \<le> j"
      "\<not> (length st \<le> j \<or> length (signature sig) \<le> j)" by auto
    show ?thesis
    proof (cases "wildcard sig ! j")
      case wc: True
      have "sigLoop st sig sigLen j = sigLoop st sig sigLen (j + 1)"
        using True inr wc by (subst sigLoop.simps) simp
      also have "\<dots> = Inr (\<forall>k. j + 1 \<le> k \<and> k < sigLen \<longrightarrow> ?ok k)"
        using "1.IH"(1) [OF True inr(1) wc "1.prems"] .
      finally show ?thesis using wc split by simp
    next
      case nwc: False
      show ?thesis
      proof (cases "st ! j = signature sig ! j")
        case eq: True
        have "sigLoop st sig sigLen j = sigLoop st sig sigLen (j + 1)"
          using True inr nwc eq by (subst sigLoop.simps) simp
        also have "\<dots> = Inr (\<forall>k. j + 1 \<le> k \<and> k < sigLen \<longrightarrow> ?ok k)"
          using "1.IH"(2) [OF True inr(1) nwc inr(2) _ "1.prems"] eq by simp
        finally show ?thesis using eq split by simp
      next
        case neq: False
        have "sigLoop st sig sigLen j = Inr False"
          using True inr nwc neq by (subst sigLoop.simps) simp
        then show ?thesis using neq nwc split by simp
      qed
    qed
  qed
qed

lemma sigLoop_matchesAt:
  assumes "compiled sig" "int i < int (length b) - int (length (signature sig))"
  shows "sigLoop (drop i b) sig (length (signature sig)) 0 = Inr (matchesAt b sig i)"
proof -
  have "sigLoop (drop i b) sig (length (signature sig)) 0 =
      Inr (\<forall>k. 0 \<le> k \<and> k < length (signature sig) \<longrightarrow>
             wildcard sig ! k \<or> drop i b ! k = signature sig ! k)"
    using assms by (intro sigLoop_decides) (auto simp: compiled_def)
  moreover have "drop i b ! k = b ! (i + k)" if "k < length (signature sig)" for k
    using that assms(2) by simp
  ultimately show ?thesis by (auto simp: matchesAt_def)
qed

lemma scanLoop_spec:
  assumes "compiled sig" "sigLen = length (signature sig)"
  shows "(scanLoop b sig sigLen i = Inr (emptySignature, - 1) \<and>
            (\<forall>k. i \<le> k \<and> int k < int (length b) - int sigLen \<longrightarrow> \<not> matchesAt b sig k)) \<or>
         (\<exists>k. scanLoop b sig sigLen i = Inr (sig, int k) \<and> i \<le> k \<and>
            int k < int (length b) - int sigLen \<and> matchesAt b sig k \<and>
            (\<forall>k'. i \<le> k' \<and> k' < k \<longrightarrow> \<not> matchesAt b sig k'))"
  using assms
proof (induction b sig sigLen i rule: scanLoop.induct)
  case (1 b sig sigLen i)
  show ?case
  proof (cases "int i < int (length b) - int sigLen")
    case False
    then show ?thesis by (subst scanLoop.simps) auto
  next
    case True
    have sl: "sigLoop (drop i b) sig sigLen 0 = Inr (matchesAt b sig i)"
      using sigLoop_matchesAt [OF "1.prems"(1)] True "1.prems"(2) by simp
    show ?thesis
    proof (cases "matchesAt b sig i")
      case m: True
      have "scanLoop b sig sigLen i = Inr (sig, int i)"
        using True sl m by (subst scanLoop.simps) simp
      with True m show ?thesis by auto
    next
      case nm: False
      have eq: "scanLoop b sig sigLen i = scanLoop b sig sigLen (i + 1)"
        using True sl nm by (subst scanLoop.simps) simp
      have step: "\<And>k. i \<le> k \<Longrightarrow> k = i \<or> i + 1 \<le> k" by arith
      have nm': "matchesAt b sig i = False" using nm by simp
      have sl': "sigLoop (drop i b) sig sigLen 0 = Inr False" using sl nm by simp
      note IH = "1.IH" [OF True sl' refl "1.prems"]
      from IH show ?thesis
      proof (elim disjE exE conjE)
        assume a: "scanLoop b sig sigLen (i + 1) = Inr (emptySignature, - 1)"
          "\<forall>k. i + 1 \<le> k \<and> int k < int (length b) - int sigLen \<longrightarrow> \<not> matchesAt b sig k"
        have "\<forall>k. i \<le> k \<and> int k < int (length b) - int sigLen \<longrightarrow> \<not> matchesAt b sig k"
          using a(2) nm step by blast
        with a(1) eq show ?thesis by simp
      next
        fix k
        assume a: "scanLoop b sig sigLen (i + 1) = Inr (sig, int k)" "i + 1 \<le> k"
          "int k < int (length b) - int sigLen" "matchesAt b sig k"
          "\<forall>k'. i + 1 \<le> k' \<and> k' < k \<longrightarrow> \<not> matchesAt b sig k'"
        have "\<forall>k'. i \<le> k' \<and> k' < k \<longrightarrow> \<not> matchesAt b sig k'"
          using a(5) nm step by blast
        moreover have "i \<le> k" using a(2) by simp
        ultimately show ?thesis using a(1,3,4) eq by auto
      qed
    qed
  qed
qed


lemma sigLoop_agree:
  assumes "length (signature s1) = length (signature s2)" "wildcard s1 = wildcard s2"
    "\<forall>j < length (signature s1). \<not> wildcard s1 ! j \<longrightarrow> signature s1 ! j = signature s2 ! j"
  shows "sigLoop st s1 n j = sigLoop st s2 n j"
  using assms
proof (induction st s1 n j rule: sigLoop.induct)
  case (1 st sig sigLen j)
  show ?case
  proof (cases "j < sigLen \<and> \<not> length (wildcard sig) \<le> j")
    case False
    then show ?thesis
      using "1.prems" by (subst sigLoop.simps, subst (2) sigLoop.simps) auto
  next
    case True
    show ?thesis
    proof (cases "wildcard sig ! j")
      case wc: True
      from "1.IH"(1) [OF _ _ wc "1.prems"] True
      have "sigLoop st sig sigLen (j + 1) = sigLoop st s2 sigLen (j + 1)" by simp
      then show ?thesis
        using True wc "1.prems" by (subst sigLoop.simps, subst (2) sigLoop.simps) simp
    next
      case nwc: False
      show ?thesis
      proof (cases "length st \<le> j \<or> length (signature sig) \<le> j")
        case oob: True
        then show ?thesis
          using True nwc "1.prems" by (subst sigLoop.simps, subst (2) sigLoop.simps) auto
      next
        case inb: False
        then have same: "signature sig ! j = signature s2 ! j"
          using nwc "1.prems"(3) by simp
        show ?thesis
        proof (cases "st ! j = signature sig ! j")
          case neq: False
          then show ?thesis
            using True nwc inb same "1.prems"
            by (subst sigLoop.simps, subst (2) sigLoop.simps) auto
        next
          case eq: True
          from "1.IH"(2) [OF _ _ nwc inb _ "1.prems"] True eq
          have "sigLoop st sig sigLen (j + 1) = sigLoop st s2 sigLen (j + 1)" by simp
          then show ?thesis
            using True nwc inb same eq "1.prems"
            by (subst sigLoop.simps, subst (2) sigLoop.simps) auto
        qed
      qed
    qed
  qed
qed

lemma scanLoop_agree:
  assumes "length (signature s1) = length (signature s2)" "wildcard s1 = wildcard s2"
    "\<forall>j < length (signature s1). \<not> wildcard s1 ! j \<longrightarrow> signature s1 ! j = signature s2 ! j"
  shows "offsetOf (scanLoop b s1 n i) = offsetOf (scanLoop b s2 n i)"
  using assms
proof (induction b s1 n i rule: scanLoop.induct)
  case (1 b sig sigLen i)
  have sl: "sigLoop (drop i b) sig sigLen 0 = sigLoop (drop i b) s2 sigLen 0"
    using "1.prems" by (rule sigLoop_agree)
  show ?case
  proof (cases "int i < int (length b) - int sigLen")
    case False
    then show ?thesis
      by (subst scanLoop.simps, subst (2) scanLoop.simps) (simp add: offsetOf_def)
  next
    case True
    show ?thesis
    proof (cases "sigLoop (drop i b) s2 sigLen 0")
      case (Inl e)
      then show ?thesis using True sl
        by (subst scanLoop.simps, subst (2) scanLoop.simps) (simp add: offsetOf_def)
    next
      case (Inr m)
      show ?thesis
      proof (cases m)
        case True
        with Inr \<open>int i < int (length b) - int sigLen\<close> sl show ?thesis
          by (subst scanLoop.simps, subst (2) scanLoop.simps) (simp add: offsetOf_def)
      next
        case False
        with Inr sl have "sigLoop (drop i b) sig sigLen 0 = Inr False" by simp
        from "1.IH" [OF \<open>int i < int (length b) - int sigLen\<close> this refl "1.prems"]
        show ?thesis
          using Inr False sl \<open>int i < int (length b) - int sigLen\<close>
          by (subst scanLoop.simps, subst (2) scanLoop.simps) simp
      qed
    qed
  qed
qed

text \<open>
  Claim C10. The bytes stored at wildcard positions never influence the scan: two
  signatures of the same length with the same wildcard mask, whose patterns agree at
  every non-wildcard position, give the same offset on every blob (or both give
  \<open>- 1\<close>, or both panic).
\<close>

theorem wildcard_bytes_irrelevant:
  assumes "length (signature s1) = length (signature s2)" "wildcard s1 = wildcard s2"
    "\<forall>j < length (signature s1). \<not> wildcard s1 ! j \<longrightarrow> signature s1 ! j = signature s2 ! j"
  shows "offsetOf (checkSignature b s1) = offsetOf (checkSignature b s2)"
  using scanLoop_agree [OF assms] assms(1)
  by (simp add: checkSignature_def Let_def offsetOf_def)

theorem wildcard_bytes_irrelevant_witness:
  "length (signature sigA) = length (signature sigA') \<and> wildcard sigA = wildcard sigA' \<and>
   wildcard sigA = [False, True, False] \<and>
   signature sigA ! 0 = signature sigA' ! 0 \<and> signature sigA ! 2 = signature sigA' ! 2 \<and>
   signature sigA \<noteq> signature sigA' \<and>
   offsetOf (checkSignature [9, 1, 7, 3, 0] sigA') = Inr 1"
proof -
  have h1: "length (signature sigA) = length (signature sigA')" by (simp add: sigA_def sigA'_def)
  have h2: "wildcard sigA = wildcard sigA'" by (simp add: sigA_def sigA'_def)
  have h3: "\<forall>j < length (signature sigA). \<not> wildcard sigA ! j \<longrightarrow> signature sigA ! j = signature sigA' ! j"
    by (simp add: sigA_def sigA'_def less_Suc_eq)
  have "offsetOf (checkSignature [9, 1, 7, 3, 0] sigA) = Inr 1"
    by (simp add: checkSignature_def scanLoop.simps sigLoop.simps sigA_def offsetOf_def)
  with wildcard_bytes_irrelevant [OF h1 h2 h3, of "[9, 1, 7, 3, 0]"] h1 h2 h3
  show ?thesis by (simp add: sigA_def sigA'_def)
qed

text \<open>
  Claim C5. For a compiled signature \<open>S\<close> with \<open>1 \<le> len(S.pattern) \<le> len(B)\<close>, when
  the scanner returns an offset \<open>k \<ge> 0\<close>, it returns \<open>S\<close> itself, every non-wildcard
  byte of the pattern agrees with the blob at \<open>k\<close>, \<open>k\<close> lies in the scanned range
  \<open>k < len(B) - len(S.pattern)\<close>, and no smaller offset matches.
\<close>

theorem checkSignature_leftmost:
  assumes "compiled S" "1 \<le> length (signature S)" "length (signature S) \<le> length B"
    "checkSignature B S = Inr (S', k)" "0 \<le> k"
  shows "S' = S \<and> matchesAt B S (nat k) \<and> k + int (length (signature S)) < int (length B) \<and>
         (\<forall>i < nat k. \<not> matchesAt B S i)"
proof -
  from assms(2,4) have sc: "scanLoop B S (length (signature S)) 0 = Inr (S', k)"
    by (auto simp: checkSignature_def Let_def split: if_splits)
  from scanLoop_spec [OF assms(1) refl, of B 0] sc assms(5)
  show ?thesis by auto
qed

theorem checkSignature_leftmost_witness:
  "compiled sigA \<and> 1 \<le> length (signature sigA) \<and> length (signature sigA) \<le> length [9, 1, 7, 3, 0 :: byte] \<and>
   checkSignature [9, 1, 7, 3, 0] sigA = Inr (sigA, 1) \<and> (0::int) \<le> 1 \<and>
   matchesAt [9, 1, 7, 3, 0] sigA 1 \<and> \<not> matchesAt [9, 1, 7, 3, 0] sigA 0"
proof -
  have h1: "compiled sigA" by (simp add: compiled_def sigA_def)
  have h2: "1 \<le> length (signature sigA)" by (simp add: sigA_def)
  have h3: "length (signature sigA) \<le> length [9, 1, 7, 3, 0 :: byte]" by (simp add: sigA_def)
  have h4: "checkSignature [9, 1, 7, 3, 0] sigA = Inr (sigA, 1)"
    by (simp add: checkSignature_def scanLoop.simps sigLoop.simps sigA_def)
  have h5: "(0::int) \<le> 1" by simp
  from checkSignature_leftmost [OF h1 h2 h3 h4 h5] h1 h2 h3 h4 show ?thesis by simp
qed

lemma checkSignature_total:
  assumes "compiled S"
  shows "\<exists>r. checkSignature B S = Inr r"
  using scanLoop_spec [OF assms refl, of B 0]
  by (auto simp: checkSignature_def Let_def)

text \<open>
  Claim C1. The claim asks for every offset \<open>i\<close> with \<open>i + len(pattern) \<le> len(blob)\<close>
  to be scanned, so that a blob equal to a wildcard-free pattern is found at offset 0.
  The loop bound \<open>i < len(b)-sigLen\<close> is exclusive: on the two-byte blob \<open>12 34\<close> the
  signature \<open>12 34\<close> is reported as not found, and so is the occurrence at the last
  offset of \<open>00 12 34\<close>; one more trailing byte makes the scanner find it.
\<close>

theorem checkSignature_last_offset_missed:
  "signature sigB = [0x12, 0x34] \<and> wildcard sigB = [False, False] \<and>
   checkSignature [0x12, 0x34] sigB = Inr (emptySignature, - 1) \<and>
   checkSignature [0x00, 0x12, 0x34] sigB = Inr (emptySignature, - 1) \<and>
   checkSignature [0x12, 0x34, 0x00] sigB = Inr (sigB, 0)"
  by (simp add: checkSignature_def scanLoop.simps sigLoop.simps sigB_def)

section \<open>Verification: the aggregator\<close>

lemma aggregate_None:
  "map_of (aggregate xs acc) n = None \<longleftrightarrow> map_of acc n = None \<and> (\<forall>x \<in> set xs. name x \<noteq> n)"
proof (induction xs arbitrary: acc)
  case Nil
  show ?case by simp
next
  case (Cons x xs)
  show ?case
  proof (cases "map_of acc (name x)")
    case None
    then have "aggregate (x # xs) acc = aggregate xs (AList.update (name x) x acc)" by simp
    then show ?thesis using Cons.IH [of "AList.update (name x) x acc"] None
      by (auto simp: update_conv')
  next
    case (Some ex)
    show ?thesis
    proof (cases "length (symbols ex) < length (symbols x)")
      case True
      with Some have "aggregate (x # xs) acc = aggregate xs (AList.update (name x) x acc)"
        by simp
      then show ?thesis using Cons.IH [of "AList.update (name x) x acc"] Some
        by (auto simp: update_conv')
    next
      case False
      with Some have "aggregate (x # xs) acc = aggregate xs acc" by simp
      then show ?thesis using Cons.IH [of acc] Some by auto
    qed
  qed
qed

lemma aggregate_Some:
  assumes "map_of (aggregate xs acc) n = Some e"
  shows "(map_of acc n = Some e \<or> (e \<in> set xs \<and> name e = n)) \<and>
         (\<forall>x \<in> set xs. name x = n \<longrightarrow> length (symbols x) \<le> length (symbols e)) \<and>
         (\<forall>e0. map_of acc n = Some e0 \<longrightarrow> length (symbols e0) \<le> length (symbols e))"
  using assms
proof (induction xs arbitrary: acc)
  case Nil
  then show ?case by simp
next
  case (Cons x xs)
  show ?case
  proof (cases "map_of acc (name x)")
    case None
    with Cons.prems have "map_of (aggregate xs (AList.update (name x) x acc)) n = Some e" by simp
    from Cons.IH [OF this] None show ?thesis
      by (auto simp: update_conv' split: if_splits)
  next
    case (Some ex)
    show ?thesis
    proof (cases "length (symbols ex) < length (symbols x)")
      case True
      with Some Cons.prems have "map_of (aggregate xs (AList.update (name x) x acc)) n = Some e"
        by simp
      from Cons.IH [OF this] Some True show ?thesis
        by (auto simp: update_conv' split: if_splits)
    next
      case False
      with Some Cons.prems have "map_of (aggregate xs acc) n = Some e" by simp
      from Cons.IH [OF this] Some False show ?thesis
        by (auto split: if_splits)
    qed
  qed
qed

lemma aggregate_best:
  assumes "map_of (aggregate xs []) n = Some e"
  shows "e \<in> set xs" "name e = n" "\<And>x. x \<in> set xs \<Longrightarrow> name x = n \<Longrightarrow> length (symbols x) \<le> length (symbols e)"
  using aggregate_Some [OF assms] by auto


lemma aggregate_distinct: "distinct (map fst acc) \<Longrightarrow> distinct (map fst (aggregate xs acc))"
  by (induction xs arbitrary: acc) (auto simp: distinct_update split: option.splits)






text \<open>
  Claim C3. One step of the aggregator inserts a match whose name is not yet present,
  and replaces an existing entry only by a match with strictly more symbols, a tie
  keeping the incumbent; the loop is the iteration of that step. Consequently, when a
  module is matched by a 2-symbol and a 5-symbol variant, the entry for the module is
  the 5-symbol variant, in whatever order the list is processed.
\<close>
theorem aggregate_keeps_richest:
  "(map_of acc1 (name x1) = None \<longrightarrow> aggregate [x1] acc1 = AList.update (name x1) x1 acc1) \<and>
   (map_of acc2 (name x2) = Some e \<longrightarrow>
      aggregate [x2] acc2 =
        (if length (symbols e) < length (symbols x2) then AList.update (name x2) x2 acc2
         else acc2)) \<and>
   aggregate (x # xs') acc = aggregate xs' (aggregate [x] acc) \<and>
   (name v2 = M \<and> name v5 = M \<and> length (symbols v2) = 2 \<and> length (symbols v5) = 5 \<and>
    v5 \<in> set xs \<and> (\<forall>y \<in> set xs. name y = M \<longrightarrow> y = v2 \<or> y = v5)
      \<longrightarrow> map_of (aggregate xs []) M = Some v5)"
proof (intro conjI impI)
  show "aggregate (x # xs') acc = aggregate xs' (aggregate [x] acc)"
    by (simp split: option.splits)
next
  assume a: "name v2 = M \<and> name v5 = M \<and> length (symbols v2) = 2 \<and> length (symbols v5) = 5 \<and>
    v5 \<in> set xs \<and> (\<forall>y \<in> set xs. name y = M \<longrightarrow> y = v2 \<or> y = v5)"
  then have "map_of (aggregate xs []) M \<noteq> None" by (auto simp: aggregate_None)
  then obtain e where e: "map_of (aggregate xs []) M = Some e" by auto
  note b = aggregate_best [OF e]
  from b(1,2) a have "e = v2 \<or> e = v5" by blast
  moreover have "length (symbols v5) \<le> length (symbols e)" using b(3) a by blast
  ultimately have "e = v5" using a by auto
  with e show "map_of (aggregate xs []) M = Some v5" by simp
qed simp_all

theorem aggregate_keeps_richest_witness:
  "aggregate [m2] [] = [(''M.OBJ'', m2)] \<and>
   aggregate [m5] [(''M.OBJ'', m2)] = [(''M.OBJ'', m5)] \<and>
   aggregate [m2] [(''M.OBJ'', m5)] = [(''M.OBJ'', m5)] \<and>
   aggregate [tieB] [(''M.OBJ'', tieA)] = [(''M.OBJ'', tieA)] \<and>
   map_of (aggregate [m5, mOther, m2] []) ''M.OBJ'' = Some m5 \<and>
   map_of (aggregate [m2, mOther, m5] []) ''M.OBJ'' = Some m5"
proof -
  have n: "name m2 = ''M.OBJ''" "name m5 = ''M.OBJ''" "name mOther = ''N.OBJ''"
    "name tieA = ''M.OBJ''" "name tieB = ''M.OBJ''"
    by (simp_all add: m2_def m5_def mOther_def tieA_def tieB_def)
  have l: "length (symbols m2) = 2" "length (symbols m5) = 5" "length (symbols tieA) = 0"
    "length (symbols tieB) = 0"
    by (simp_all add: m2_def m5_def tieA_def tieB_def)
  have s1: "aggregate [m2] [] = [(''M.OBJ'', m2)]"
    using aggregate_keeps_richest [of "[]" m2 "[]" m2 m2 m2 "[]" "[]" m2 "''M.OBJ''" m5 "[m5]"] n
    by simp
  have s2: "aggregate [m5] [(''M.OBJ'', m2)] = [(''M.OBJ'', m5)]"
    using aggregate_keeps_richest [of "[]" m2 "[(''M.OBJ'', m2)]" m5 m2 m2 "[]" "[]" m2 "''M.OBJ''" m5 "[m5]"] n l
    by simp
  have s3: "aggregate [m2] [(''M.OBJ'', m5)] = [(''M.OBJ'', m5)]"
    using aggregate_keeps_richest [of "[]" m2 "[(''M.OBJ'', m5)]" m2 m5 m2 "[]" "[]" m2 "''M.OBJ''" m5 "[m5]"] n l
    by simp
  have s4: "aggregate [tieB] [(''M.OBJ'', tieA)] = [(''M.OBJ'', tieA)]"
    using aggregate_keeps_richest [of "[]" m2 "[(''M.OBJ'', tieA)]" tieB tieA m2 "[]" "[]" m2 "''M.OBJ''" m5 "[m5]"] n l
    by simp
  have s5: "map_of (aggregate [m5, mOther, m2] []) ''M.OBJ'' = Some m5"
    using aggregate_keeps_richest [of "[]" m2 "[]" m2 m2 m2 "[]" "[]" m2 "''M.OBJ''" m5 "[m5, mOther, m2]"] n l
    by simp
  have s6: "map_of (aggregate [m2, mOther, m5] []) ''M.OBJ'' = Some m5"
    using aggregate_keeps_richest [of "[]" m2 "[]" m2 m2 m2 "[]" "[]" m2 "''M.OBJ''" m5 "[m2, mOther, m5]"] n l
    by simp
  from s1 s2 s3 s4 s5 s6 show ?thesis by simp
qed

section \<open>Verification: the region layout\<close>

lemma rangeValues_map:
  assumes "set ks \<subseteq> fst ` set m"
  shows "rangeValues ks m = map (\<lambda>k. the (map_of m k)) ks"
  using assms
proof (induction ks)
  case Nil
  show ?case by (simp add: rangeValues_def List.map_filter_simps)
next
  case (Cons k ks)
  then have "k \<in> dom (map_of m)" by (simp add: dom_map_of_conv_image_fst)
  then obtain v where "map_of m k = Some v" by auto
  with Cons show ?case by (simp add: rangeValues_def List.map_filter_simps)
qed

lemma lookup_fst_snd:
  assumes "distinct (map fst m)"
  shows "map (\<lambda>k. the (map_of m k)) (map fst m) = map snd m"
proof -
  have "the (map_of m (fst p)) = snd p" if "p \<in> set m" for p
    using that assms by (metis map_of_eq_Some_iff option.sel prod.collapse)
  then show ?thesis by simp
qed

lemma rangeValues_mset:
  assumes "enumerates ks m" "distinct (map fst m)"
  shows "mset (rangeValues ks m) = mset (map snd m)"
proof -
  from assms have "distinct ks" "set ks = set (map fst m)"
    by (simp_all add: enumerates_def)
  with assms(2) have "mset ks = mset (map fst m)"
    using set_eq_iff_mset_eq_distinct [of ks "map fst m"] by blast
  then have "mset (map (\<lambda>k. the (map_of m k)) ks) = mset (map (\<lambda>k. the (map_of m k)) (map fst m))"
    by (metis mset_map)
  then have "mset (map (\<lambda>k. the (map_of m k)) ks) = mset (map snd m)"
    by (simp only: lookup_fst_snd [OF assms(2)])
  then show ?thesis
    using rangeValues_map [of ks m] assms(1) by (simp add: enumerates_def)
qed

lemma regionLoop_closed:
  "regionLoop ms i = concat (map (segmentAt ms) [i..<length ms])"
proof (induction ms i rule: regionLoop.induct)
  case (1 matches i)
  show ?case
  proof (cases "i < length matches")
    case True
    then have up: "[i..<length matches] = i # [i + 1..<length matches]"
      by (simp add: upt_conv_Cons)
    have "regionLoop matches i = segmentAt matches i @ regionLoop matches (i + 1)"
      using True by (subst regionLoop.simps) (simp add: segmentAt_def)
    also have "regionLoop matches (i + 1) = concat (map (segmentAt matches) [i + 1..<length matches])"
      using "1.IH" [OF True] .
    finally show ?thesis using up by simp
  next
    case False
    then show ?thesis by (subst regionLoop.simps) simp
  qed
qed

lemma getMatchesSorted_unique:
  assumes "enumerates ks m" "enumerates ks' m" "distinct (map fst m)"
    "inj_on start (snd ` set m)"
  shows "getMatchesSorted ks m = getMatchesSorted ks' m"
proof -
  have ms: "mset (rangeValues ks m) = mset (rangeValues ks' m)"
    using assms by (simp add: rangeValues_mset)
  have "set (rangeValues ks m) = snd ` set m"
    using rangeValues_mset [OF assms(1,3)] by (metis set_map set_mset_mset)
  with assms(4) have inj: "inj_on start (set (rangeValues ks m))" by simp
  have "sort_key start (rangeValues ks m) = sort_key start (rangeValues ks' m)"
    using ms inj by (intro sort_key_inj_key_eq) simp_all
  then show ?thesis by (simp add: getMatchesSorted_def)
qed

text \<open>
  Claim C6. For every non-empty resolved match set and every range order, the matches
  are laid out in ascending order of \<open>start\<close> (a permutation of the set), and the
  printed lines are the named line of the first match followed, for each later match,
  by a gap line at the previous match's end exactly when its start is strictly
  greater than that end, and its named line. For the matches A (0x10 to 0x20),
  B (0x20 to 0x30) and C (0x50 to 0x60) the lines are A, B, one gap at 0x30, and C,
  in every range order.
\<close>

theorem region_layout:
  assumes "enumerates ks m" "distinct (map fst m)" "m \<noteq> []"
  shows "sorted (map start (getMatchesSorted ks m)) \<and>
         mset (getMatchesSorted ks m) = mset (map snd m) \<and>
         printRegions (getMatchesSorted ks m) =
           Inr (namedLine (getMatchesSorted ks m ! 0) #
                concat (map (segmentAt (getMatchesSorted ks m)) [1..<length m])) \<and>
         (enumerates ks' gapLawMatches \<longrightarrow>
            printRegions (getMatchesSorted ks' gapLawMatches) =
              Inr ['' - [0x10, c, a]'', '' - [0x20, c, b]'', '' - [0x30, c]'', '' - [0x50, c, c]''])"
proof -
  let ?ms = "getMatchesSorted ks m"
  have perm: "mset ?ms = mset (map snd m)"
    using rangeValues_mset [OF assms(1,2)] by (simp add: getMatchesSorted_def)
  then have len: "length ?ms = length m" by (metis length_map size_mset)
  have srt: "sorted (map start ?ms)" by (simp add: getMatchesSorted_def)
  have pr: "printRegions ?ms = Inr (namedLine (?ms ! 0) # concat (map (segmentAt ?ms) [1..<length m]))"
    using assms(3) len by (simp add: printRegions_def regionLoop_closed)
  have ex: "printRegions (getMatchesSorted ks' gapLawMatches) =
      Inr ['' - [0x10, c, a]'', '' - [0x20, c, b]'', '' - [0x30, c]'', '' - [0x50, c, c]'']"
    if e: "enumerates ks' gapLawMatches"
  proof -
    have e0: "enumerates [''A'', ''B'', ''C''] gapLawMatches"
      by (simp add: enumerates_def gapLawMatches_def)
    have d: "distinct (map fst gapLawMatches)" by (simp add: gapLawMatches_def)
    have i: "inj_on start (snd ` set gapLawMatches)" by (simp add: gapLawMatches_def)
    have "getMatchesSorted ks' gapLawMatches = getMatchesSorted [''A'', ''B'', ''C''] gapLawMatches"
      using getMatchesSorted_unique [OF e e0 d i] .
    also have "\<dots> = map snd gapLawMatches"
      by (simp add: getMatchesSorted_def rangeValues_def List.map_filter_simps gapLawMatches_def)
    finally show ?thesis
      by (simp add: printRegions_def regionLoop.simps gapLawMatches_def namedLine_def gapLine_def
          fmtX_def hexUpper.simps hexDigit_def TrimSuffix_def HasSuffix_def ToLower_def
          toLowerChar_def)
  qed
  from srt perm pr ex show ?thesis by blast
qed

theorem region_layout_witness:
  "enumerates [''C'', ''A'', ''B''] gapLawMatches \<and> distinct (map fst gapLawMatches) \<and>
   gapLawMatches \<noteq> [] \<and> enumerates [''B'', ''C'', ''A''] gapLawMatches \<and>
   map start (getMatchesSorted [''C'', ''A'', ''B''] gapLawMatches) = [0x10, 0x20, 0x50] \<and>
   printRegions (getMatchesSorted [''B'', ''C'', ''A''] gapLawMatches) =
     Inr ['' - [0x10, c, a]'', '' - [0x20, c, b]'', '' - [0x30, c]'', '' - [0x50, c, c]'']"
proof -
  have h1: "enumerates [''C'', ''A'', ''B''] gapLawMatches"
    by (auto simp: enumerates_def gapLawMatches_def)
  have h2: "distinct (map fst gapLawMatches)" by (simp add: gapLawMatches_def)
  have h3: "gapLawMatches \<noteq> []" by (simp add: gapLawMatches_def)
  have h4: "enumerates [''B'', ''C'', ''A''] gapLawMatches"
    by (auto simp: enumerates_def gapLawMatches_def)
  have v: "map start (getMatchesSorted [''C'', ''A'', ''B''] gapLawMatches) = [0x10, 0x20, 0x50]"
    by (simp add: getMatchesSorted_def rangeValues_def List.map_filter_simps gapLawMatches_def)
  from region_layout [OF h1 h2 h3, of "[''B'', ''C'', ''A'']"] h1 h2 h3 h4 v
  show ?thesis by simp
qed







section \<open>Verification: the version estimate\<close>








section \<open>Verification: the pipeline\<close>

lemma compile_sigX: "compileAll [sigX] = Inr [sigXc]"
proof -
  have t: "Split (ToLower (sigText sigX)) CHR '' '' = [''00'', ''00'', ''??'', ''00'']"
    by (simp add: sigX_def ToLower_def toLowerChar_def)
  have p: "ParseUint_16_8 ''00'' = Inr 0"
    by (simp add: ParseUint_16_8_def hexVal_def)
  show ?thesis by (simp add: t p) (simp add: sigX_def sigXc_def)
qed

lemma check_sigXc: "checkSignature (replicate 64 0) sigXc = Inr (sigXc, 0)"
  by (simp add: checkSignature_def scanLoop.simps sigLoop.simps sigXc_def sigX_def)

lemma getMatches_260: "getMatches catalogX (replicate 64 0) 0x80010000 ''260'' = Inr [matchX]"
proof -
  have "fetchPsyqSignatures catalogX ''260'' = Inr [sigXc]"
    by (simp add: fetchPsyqSignatures_def catalogX_def compile_sigX del: compileAll.simps)
  moreover have "matchLoop (replicate 64 0) 0x80010000 ''260'' [sigXc] [] = Inr [matchX]"
    by (simp add: check_sigXc) (simp add: sigXc_def sigX_def matchX_def HasPrefix_def)
  ultimately show ?thesis by (simp add: getMatches_def)
qed

lemma getMatches_other:
  "ver \<noteq> ''260'' \<Longrightarrow> getMatches catalogX b baseAddr ver = Inr []"
  by (simp add: getMatches_def fetchPsyqSignatures_def catalogX_def)

lemma runTasks_X:
  "runTasks catalogX (replicate 64 0) 0x80010000 versions [] = Inr [(''X.OBJ'', matchX)]"
proof -
  have n: "name matchX = ''X.OBJ''" by (simp add: matchX_def)
  show ?thesis
    unfolding versions_def by (simp add: getMatches_260 getMatches_other n)
qed

lemma report_X:
  "report ordersX 0x80010000 [(''X.OBJ'', matchX)] =
     Inr [EstimateLine ''260'' 1, Line '' - [0x0, c, x]'', Line ''FOO = 0x00020001'']"
proof -
  have m: "getMatchesSorted [''X.OBJ''] [(''X.OBJ'', matchX)] = [matchX]"
    by (simp add: getMatchesSorted_def rangeValues_def List.map_filter_simps)
  have s: "getSymbolsSorted [''X.OBJ''] [(''X.OBJ'', matchX)] = [\<lparr>Name = ''FOO'', Offset = 0x80010001\<rparr>]"
    by (simp add: getSymbolsSorted_def rangeValues_def List.map_filter_simps matchX_def)
  have e: "estimatePsyqVesion [''X.OBJ''] [''260''] [(''X.OBJ'', matchX)] =
      [\<lparr>ve_version = ''260'', ve_match = 1\<rparr>]"
    by (simp add: estimatePsyqVesion_def countVersions_def bumpVersion_def rangeValues_def
        List.map_filter_simps matchX_def)
  have p: "printRegions [matchX] = Inr ['' - [0x0, c, x]'']"
    by (simp add: printRegions_def regionLoop.simps matchX_def namedLine_def fmtX_def
        hexUpper.simps hexDigit_def TrimSuffix_def HasSuffix_def ToLower_def toLowerChar_def)
  have h: "hexUpper 131073 = ''20001''"
    by (simp add: hexUpper.simps hexDigit_def)
  have z: "replicate 3 CHR ''0'' = ''000''"
    by (simp add: numeral_3_eq_3)
  have l: "symbolLine 0x80010000 \<lparr>Name = ''FOO'', Offset = 0x80010001\<rparr> = ''FOO = 0x00020001''"
    by (simp add: symbolLine_def fmt08X_def h z)
  show ?thesis
    by (simp add: report_def ordersX_def m s e p l)
qed

text \<open>
  Claim C2. On a blob of 64 zero bytes with base address \<open>0x80010000\<close> the pipeline
  compiles the record, finds it at offset 0 and resolves one match with start 0, end
  4, name \<open>X.OBJ\<close> and the symbol \<open>FOO\<close> at \<open>baseAddress + 1 = 0x80010001\<close>; the
  report has the region line for \<open>x\<close> at \<open>0x0\<close>. The symbol line, however, adds the
  base address to the stored address a second time and prints \<open>FOO = 0x00020001\<close>
  where the claim expects \<open>0x80010001\<close>.
\<close>

theorem end_to_end_symbol_address:
  "compileAll [sigX] = Inr [sigXc] \<and>
   runTasks catalogX (replicate 64 0) 0x80010000 versions [] = Inr [(''X.OBJ'', matchX)] \<and>
   start matchX = 0 \<and> end_m matchX = 4 \<and> name matchX = ''X.OBJ'' \<and>
   map_of (symbols matchX) (0x80010000 + 1) = Some ''FOO'' \<and>
   do ordersX catalogX (replicate 64 0) 0x80010000 =
     Inr [EstimateLine ''260'' 1, Line '' - [0x0, c, x]'', Line ''FOO = 0x00020001'']"
proof -
  have "do ordersX catalogX (replicate 64 0) 0x80010000 =
     Inr [EstimateLine ''260'' 1, Line '' - [0x0, c, x]'', Line ''FOO = 0x00020001'']"
    using runTasks_X report_X by (simp add: do_def ordersX_def)
  then show ?thesis
    using compile_sigX runTasks_X by (simp add: matchX_def)
qed

section \<open>Verification: the errors of the pipeline and \<open>main\<close>\<close>

lemma compileTokens_error: "compileTokens ts sig = Inl e \<Longrightarrow> e = MalformedSignature"
  by (induction ts sig rule: compileTokens.induct)
     (auto simp: ParseUint_16_8_def split: if_splits sum.splits option.splits)

lemma compileAll_error: "compileAll sigs = Inl e \<Longrightarrow> e = MalformedSignature"
  by (induction sigs) (auto split: sum.splits dest: compileTokens_error)

lemma sigLoop_error: "sigLoop st sig sigLen j = Inl e \<Longrightarrow> e = IndexOutOfRange"
proof (induction st sig sigLen j rule: sigLoop.induct)
  case (1 st sig sigLen j)
  from "1.prems" show ?case
    by (subst (asm) sigLoop.simps) (auto split: if_splits dest: "1.IH")
qed

lemma scanLoop_error: "scanLoop b sig sigLen i = Inl e \<Longrightarrow> e = IndexOutOfRange"
proof (induction b sig sigLen i rule: scanLoop.induct)
  case (1 b sig sigLen i)
  from "1.prems" show ?case
    by (subst (asm) scanLoop.simps)
       (auto split: if_splits sum.splits bool.splits dest: "1.IH" sigLoop_error)
qed

lemma checkSignature_error: "checkSignature b sig = Inl e \<Longrightarrow> e = IndexOutOfRange"
  by (auto simp: checkSignature_def Let_def split: if_splits dest: scanLoop_error)

lemma matchLoop_error:
  "matchLoop b baseAddr sdkver sigs acc = Inl e \<Longrightarrow> e = IndexOutOfRange"
  by (induction sigs arbitrary: acc)
     (auto split: sum.splits prod.splits if_splits dest: checkSignature_error)

lemma getMatches_error:
  "getMatches catalog b baseAddr ver = Inl e \<Longrightarrow>
     e = CatalogUnavailable \<or> e = MalformedSignature \<or> e = IndexOutOfRange"
  by (auto simp: getMatches_def fetchPsyqSignatures_def
      split: sum.splits option.splits dest: compileAll_error matchLoop_error)

lemma runTasks_error:
  "runTasks catalog b baseAddr sched acc = Inl e \<Longrightarrow>
     e = CatalogUnavailable \<or> e = MalformedSignature \<or> e = IndexOutOfRange"
  by (induction sched arbitrary: acc) (auto split: sum.splits dest: getMatches_error)

lemma runTasks_distinct:
  "runTasks catalog b baseAddr sched acc = Inr allMatches \<Longrightarrow> distinct (map fst acc) \<Longrightarrow>
     distinct (map fst allMatches)"
  by (induction sched arbitrary: acc) (auto split: sum.splits dest: aggregate_distinct)

lemma report_error:
  "report os baseAddr allMatches = Inl e \<Longrightarrow> e = NoMatchesFound \<or> e = IndexOutOfRange"
  by (auto simp: report_def printRegions_def Let_def split: if_splits sum.splits)

lemma do_error:
  "do os catalog b baseAddr = Inl e \<Longrightarrow>
     e = CatalogUnavailable \<or> e = MalformedSignature \<or> e = IndexOutOfRange \<or> e = NoMatchesFound"
  by (auto simp: do_def split: sum.splits dest: runTasks_error report_error)

text \<open>
  Claim C9, amended. When the file can be read, \<open>main\<close> stops with the input-too-small
  error exactly for the inputs of at most \<open>0x800\<close> bytes, whatever the catalog holds
  (nothing is scanned); for every input of more than \<open>0x800\<close> bytes it runs \<open>do\<close> on
  the bytes after the first \<open>0x800\<close> with base address \<open>0x80010000\<close>, and no later
  step reports that error.
\<close>

theorem main_rejects_up_to_header_size:
  assumes "2 \<le> length args" "readFile (args ! 1) = Some data"
  shows "(length data \<le> 0x800 \<longrightarrow> main os catalog args readFile = Inl InputTooSmall) \<and>
         (0x800 < length data \<longrightarrow>
            main os catalog args readFile = do os catalog (drop 0x800 data) 0x80010000 \<and>
            main os catalog args readFile \<noteq> Inl InputTooSmall)"
proof (intro conjI impI)
  assume "length data \<le> 0x800"
  then show "main os catalog args readFile = Inl InputTooSmall"
    using assms by (simp add: main_def)
next
  assume big: "0x800 < length data"
  then show eq: "main os catalog args readFile = do os catalog (drop 0x800 data) 0x80010000"
    using assms by (simp add: main_def)
  show "main os catalog args readFile \<noteq> Inl InputTooSmall"
    unfolding eq using do_error [of os catalog "drop 0x800 data" "0x80010000" InputTooSmall]
    by auto
qed

theorem main_rejects_up_to_header_size_witness:
  "main ordersX catalogX [''prog'', ''psx.exe''] (readsAs (replicate 0x7FF 0)) = Inl InputTooSmall \<and>
   main ordersX catalogX [''prog'', ''psx.exe''] (readsAs (replicate 0x800 0xFF @ replicate 64 0)) =
     Inr [EstimateLine ''260'' 1, Line '' - [0x0, c, x]'', Line ''FOO = 0x00020001'']"
proof -
  have a: "2 \<le> length [''prog'', ''psx.exe'']" by simp
  have r1: "readsAs (replicate 0x7FF 0) ([''prog'', ''psx.exe''] ! 1) = Some (replicate 0x7FF 0)"
    by (simp add: readsAs_def)
  have r2: "readsAs (replicate 0x800 0xFF @ replicate 64 0) ([''prog'', ''psx.exe''] ! 1) =
      Some (replicate 0x800 0xFF @ replicate 64 0)"
    by (simp add: readsAs_def)
  have d: "do ordersX catalogX (replicate 64 0) 0x80010000 =
     Inr [EstimateLine ''260'' 1, Line '' - [0x0, c, x]'', Line ''FOO = 0x00020001'']"
    using runTasks_X report_X by (simp add: do_def ordersX_def)
  from main_rejects_up_to_header_size [where args = "[''prog'', ''psx.exe'']"
         and readFile = "readsAs (replicate 0x7FF 0)" and data = "replicate 0x7FF 0"
         and os = ordersX and catalog = catalogX, OF a r1]
       main_rejects_up_to_header_size [where args = "[''prog'', ''psx.exe'']"
         and readFile = "readsAs (replicate 0x800 0xFF @ replicate 64 0)"
         and data = "replicate 0x800 0xFF @ replicate 64 0"
         and os = ordersX and catalog = catalogX, OF a r2] d
  show ?thesis by simp
qed

text \<open>
  Claim C9 as stated fails at the boundary: an input of exactly \<open>0x800\<close> bytes is not
  shorter than the header, yet the guard \<open>len(data) <= 0x800\<close> rejects it.
\<close>

theorem main_rejects_exact_header_size:
  "length (replicate 0x800 (0 :: byte)) = 0x800 \<and>
   main ordersX catalogX [''prog'', ''psx.exe''] (readsAs (replicate 0x800 0)) = Inl InputTooSmall"
  by (simp add: main_def readsAs_def)

end
